theory Spec2Isabelle
  imports Main "HOL-Library.Sublist"
begin

section \<open>Data model\<close>

text \<open>
  A frequency table is a Python \<open>Counter\<close>: a dictionary from sequences to integer counts.
  The clustering operations iterate over \<open>list(counter)\<close>, so the iteration order of the
  dictionary matters; the table is an association list in iteration order. A well-formed
  table has distinct keys.
\<close>

type_synonym counter = "(string \<times> int) list"

text \<open>
  A trie value is either an integer count or a string (the parent sequence); the source
  tells them apart with \<open>type(v) is int\<close>.
\<close>

datatype entry = Canonical int | SubsequenceOf string

type_synonym trie = "(string \<times> entry) list"

text \<open>\<open>counter[k]\<close> as an expression: a missing key reads as 0 and is not inserted.\<close>

definition getitem :: "counter \<Rightarrow> string \<Rightarrow> int" where
  "getitem c k = (case map_of c k of None \<Rightarrow> 0 | Some v \<Rightarrow> v)"

text \<open>\<open>d[k] = v\<close>: overwrite the value of an existing key, or add the key.\<close>

fun setitem :: "'k \<Rightarrow> 'v \<Rightarrow> ('k \<times> 'v) list \<Rightarrow> ('k \<times> 'v) list" where
  "setitem k v [] = [(k, v)]"
| "setitem k v ((k', v') # ps) = (if k' = k then (k, v) # ps else (k', v') # setitem k v ps)"

text \<open>\<open>t.has_key(k)\<close>.\<close>

definition has_key :: "('k \<times> 'v) list \<Rightarrow> 'k \<Rightarrow> bool" where
  "has_key t k = (map_of t k \<noteq> None)"

text \<open>
  \<open>counter += Counter()\<close>: \<open>Counter.__add__\<close> builds a new table holding only the keys whose
  count is positive.
\<close>

definition keep_positive :: "counter \<Rightarrow> counter" where
  "keep_positive c = filter (\<lambda>(k, v). 0 < v) c"

text \<open>The sum of all counts of a table.\<close>

definition total :: "counter \<Rightarrow> int" where
  "total c = sum_list (map snd c)"

text \<open>\<open>seqs.sort(key=len, reverse=True)\<close>: a stable sort, longest first.\<close>

definition by_length_desc :: "string list \<Rightarrow> string list" where
  "by_length_desc seqs = sort_key (\<lambda>s. - int (length s)) seqs"

section \<open>Helpers\<close>

definition chunker :: "'a list \<Rightarrow> nat \<Rightarrow> 'a list list" where
  "chunker it n = map (\<lambda>i. take n (drop i it)) [0..<length it + 1 - n]"

fun unique_everseen_from :: "('a \<Rightarrow> 'k) \<Rightarrow> 'k set \<Rightarrow> 'a list \<Rightarrow> 'a list" where
  "unique_everseen_from key seen [] = []"
| "unique_everseen_from key seen (element # iterable) =
     (if key element \<in> seen then unique_everseen_from key seen iterable
      else element # unique_everseen_from key (insert (key element) seen) iterable)"

definition unique_everseen :: "('a \<Rightarrow> 'k) \<Rightarrow> 'a list \<Rightarrow> 'a list" where
  "unique_everseen key iterable = unique_everseen_from key {} iterable"

text \<open>The key function \<open>lambda (m,c,d): m\<close> of both approximate loops.\<close>

definition match_key :: "string \<times> entry \<times> nat \<Rightarrow> string" where
  "match_key = (\<lambda>(m, c, d). m)"

section \<open>The trie library\<close>

text \<open>
  Modelled from the spec: \<open>triefind.find\<close> of the trie library (Bio.triefind), which is
  imported by the source and is not part of it. For each start position of the string, in
  order, it lists every non-empty prefix of the rest of the string that is a key of the
  trie, shortest first, with its start and end positions: all trie-indexed sequences
  occurring as exact substrings.
\<close>

definition match_all :: "string \<Rightarrow> trie \<Rightarrow> string list" where
  "match_all s t = filter (has_key t) (map (\<lambda>i. take (Suc i) s) [0..<length s])"

definition triefind_find :: "string \<Rightarrow> trie \<Rightarrow> (string \<times> nat \<times> nat) list" where
  "triefind_find s t =
     concat (map (\<lambda>start. map (\<lambda>key. (key, start, start + length key))
                                (match_all (drop start s) t))
                 [0..<length s])"

text \<open>
  Modelled from the spec: \<open>get_approximate\<close> of the trie library (Bio.trie), which is
  imported by the source and is not part of it: all entries of the index within mismatch
  distance at most \<open>n\<close> of the query, as triples of key, value and distance, where the
  distance is the edit distance (substitutions, insertions and deletions). The entries are
  listed in the order of the index.
\<close>

fun edit_distance :: "string \<Rightarrow> string \<Rightarrow> nat" where
  "edit_distance [] ys = length ys"
| "edit_distance (x # xs) [] = Suc (length xs)"
| "edit_distance (x # xs) (y # ys) =
     (if x = y then edit_distance xs ys
      else Suc (min (edit_distance xs ys)
                    (min (edit_distance xs (y # ys)) (edit_distance (x # xs) ys))))"

definition get_approximate :: "trie \<Rightarrow> string \<Rightarrow> nat \<Rightarrow> (string \<times> entry \<times> nat) list" where
  "get_approximate t s n =
     map (\<lambda>(k, v). (k, v, edit_distance s k))
         (filter (\<lambda>(k, v). edit_distance s k \<le> n) t)"

section \<open>Trie construction\<close>

definition construct_simple_trie :: "counter \<Rightarrow> trie" where
  "construct_simple_trie counter =
     fold (\<lambda>(seq, count) t. setitem seq (Canonical count) t) counter []"

text \<open>The body of the innermost loop of \<open>construct_complex_trie\<close>: one window.\<close>

definition complex_trie_window :: "counter \<Rightarrow> string \<Rightarrow> string \<Rightarrow> trie \<Rightarrow> trie" where
  "complex_trie_window counter seq sub t =
     (if has_key t sub then t
      else if sub = seq then setitem seq (Canonical (getitem counter seq)) t
      else setitem sub (SubsequenceOf seq) t)"

text \<open>The body of the loop over \<open>lengths\<close>: all windows of one length.\<close>

definition complex_trie_length :: "counter \<Rightarrow> string \<Rightarrow> nat \<Rightarrow> trie \<Rightarrow> trie" where
  "complex_trie_length counter seq l t =
     (if l > length seq then t
      else fold (complex_trie_window counter seq) (chunker seq l) t)"

text \<open>The body of the loop over \<open>seqs\<close>.\<close>

definition complex_trie_seq :: "counter \<Rightarrow> nat list \<Rightarrow> string \<Rightarrow> trie \<Rightarrow> trie" where
  "complex_trie_seq counter lengths seq t = fold (complex_trie_length counter seq) lengths t"

definition construct_complex_trie :: "counter \<Rightarrow> nat list option \<Rightarrow> trie" where
  "construct_complex_trie counter lengths =
     (let seqs = by_length_desc (map fst counter);
          lengths' = (case lengths of None \<Rightarrow> sort (remdups (map length seqs))
                                    | Some ls \<Rightarrow> ls)
      in fold (complex_trie_seq counter lengths') seqs [])"

section \<open>Exact substring collapse\<close>

text \<open>The body of the inner loop of \<open>process_exact_substring\<close>: one match.\<close>

fun exact_substring_match :: "string \<Rightarrow> string \<times> nat \<times> nat \<Rightarrow> counter \<Rightarrow> counter" where
  "exact_substring_match seq (match, start, stop) counter =
     (if length match = length seq then counter
      else setitem match 0 (setitem seq (getitem counter seq + getitem counter match) counter))"

text \<open>The body of the outer loop: all matches of one sequence.\<close>

definition exact_substring_seq ::
  "(string \<Rightarrow> trie \<Rightarrow> (string \<times> nat \<times> nat) list) \<Rightarrow> trie \<Rightarrow> string \<Rightarrow> counter \<Rightarrow> counter"
  where
  "exact_substring_seq fnd t seq counter = fold (exact_substring_match seq) (fnd seq t) counter"

text \<open>The loops of \<open>process_exact_substring\<close>, before the final \<open>counter += Counter()\<close>.\<close>

definition exact_substring_loop ::
  "(string \<Rightarrow> trie \<Rightarrow> (string \<times> nat \<times> nat) list) \<Rightarrow> counter \<Rightarrow> trie \<Rightarrow> counter" where
  "exact_substring_loop fnd counter t =
     fold (exact_substring_seq fnd t) (by_length_desc (map fst counter)) counter"

text \<open>The first argument is the library's \<open>triefind.find\<close>.\<close>

definition process_exact_substring ::
  "(string \<Rightarrow> trie \<Rightarrow> (string \<times> nat \<times> nat) list) \<Rightarrow> counter \<Rightarrow> trie \<Rightarrow> counter" where
  "process_exact_substring fnd counter t = keep_positive (exact_substring_loop fnd counter t)"

section \<open>Approximate clustering\<close>

text \<open>The body of the inner loop of \<open>process_similar\<close>: one deduplicated match.\<close>

fun similar_match :: "string \<Rightarrow> string \<times> entry \<times> nat \<Rightarrow> counter \<Rightarrow> counter" where
  "similar_match seq (k, v, dist) counter =
     (if dist = 0 \<or> k = seq then counter
      else case v of
        Canonical i \<Rightarrow>
          setitem k 0 (setitem seq (getitem counter seq + getitem counter k) counter)
      | SubsequenceOf p \<Rightarrow>
          setitem seq 0 (setitem p (getitem counter p + getitem counter seq) counter))"

text \<open>
  The body of the outer loop; the progress report goes to the error stream and is left out.
\<close>

definition similar_seq ::
  "(trie \<Rightarrow> string \<Rightarrow> nat \<Rightarrow> (string \<times> entry \<times> nat) list) \<Rightarrow> trie \<Rightarrow> nat \<Rightarrow> string \<Rightarrow>
   counter \<Rightarrow> counter" where
  "similar_seq approx t n seq counter =
     (if getitem counter seq = 0 then counter
      else fold (similar_match seq) (unique_everseen match_key (approx t seq n)) counter)"

definition similar_loop ::
  "(trie \<Rightarrow> string \<Rightarrow> nat \<Rightarrow> (string \<times> entry \<times> nat) list) \<Rightarrow> counter \<Rightarrow> trie \<Rightarrow> nat \<Rightarrow> counter"
  where
  "similar_loop approx counter t n =
     fold (similar_seq approx t n) (by_length_desc (map fst counter)) counter"

text \<open>The first argument is the library's \<open>get_approximate\<close>.\<close>

definition process_similar ::
  "(trie \<Rightarrow> string \<Rightarrow> nat \<Rightarrow> (string \<times> entry \<times> nat) list) \<Rightarrow> counter \<Rightarrow> trie \<Rightarrow> nat \<Rightarrow> counter"
  where
  "process_similar approx counter t n = keep_positive (similar_loop approx counter t n)"

section \<open>Bin classification\<close>

text \<open>
  The state of \<open>process_similar_matrix\<close> is the pair of the bin table and the sample table:
  both are mutated in place, and the bin table is returned.
\<close>

fun similar_matrix_match ::
  "string \<Rightarrow> string \<times> entry \<times> nat \<Rightarrow> counter \<times> counter \<Rightarrow> counter \<times> counter" where
  "similar_matrix_match seq (k, v, dist) (bins, seqs) =
     (case v of
        Canonical i \<Rightarrow> (setitem k (getitem bins k + getitem seqs seq) bins, setitem seq 0 seqs)
      | SubsequenceOf p \<Rightarrow>
          (setitem p (getitem bins p + getitem seqs seq) bins, setitem seq 0 seqs))"

definition similar_matrix_seq ::
  "(trie \<Rightarrow> string \<Rightarrow> nat \<Rightarrow> (string \<times> entry \<times> nat) list) \<Rightarrow> trie \<Rightarrow> nat \<Rightarrow> string \<Rightarrow>
   counter \<times> counter \<Rightarrow> counter \<times> counter" where
  "similar_matrix_seq approx t n seq st =
     fold (similar_matrix_match seq) (unique_everseen match_key (approx t seq n)) st"

definition process_similar_matrix ::
  "(trie \<Rightarrow> string \<Rightarrow> nat \<Rightarrow> (string \<times> entry \<times> nat) list) \<Rightarrow> counter \<Rightarrow> counter \<Rightarrow> trie \<Rightarrow>
   nat \<Rightarrow> counter \<times> counter" where
  "process_similar_matrix approx bins seqs t n =
     fold (similar_matrix_seq approx t n) (by_length_desc (map fst seqs)) (bins, seqs)"

section \<open>Auxiliary definitions and example inputs\<close>

text \<open>
  The keys that one pass of the inner loop of \<open>process_exact_substring\<close> merges into
  \<open>seq\<close>: the matches whose length differs from the length of \<open>seq\<close>.
\<close>

definition shorter_matches :: "string \<Rightarrow> (string \<times> nat \<times> nat) list \<Rightarrow> string set" where
  "shorter_matches seq ms = {m \<in> fst ` set ms. length m \<noteq> length seq}"

text \<open>
  The collapse of one sequence in the words of the spec, on counts as a function of the
  key: every key in \<open>shorter\<close> has its count added into the count of \<open>seq\<close> and is then
  zeroed; every other count stays.
\<close>

definition collapse_into :: "string \<Rightarrow> string set \<Rightarrow> (string \<Rightarrow> int) \<Rightarrow> string \<Rightarrow> int" where
  "collapse_into seq shorter count =
     (\<lambda>x. if x \<in> shorter then 0
          else if x = seq then count seq + sum count shorter
          else count x)"

text \<open>
  The two kinds of trie entry: a count that is the table's count of the key, or a parent
  that is a key of the table, strictly longer than the entry's key and containing it as a
  contiguous substring.
\<close>

definition entry_ok :: "counter \<Rightarrow> string \<Rightarrow> entry \<Rightarrow> bool" where
  "entry_ok counter k v =
     (case v of
        Canonical i \<Rightarrow> map_of counter k = Some i
      | SubsequenceOf p \<Rightarrow> p \<in> fst ` set counter \<and> length k < length p \<and> sublist k p)"

definition trie_ok :: "counter \<Rightarrow> trie \<Rightarrow> bool" where
  "trie_ok counter t = (\<forall>k v. map_of t k = Some v \<longrightarrow> entry_ok counter k v)"

text \<open>Every key with an integer entry belongs to the set \<open>D\<close>.\<close>

definition canonical_within :: "string set \<Rightarrow> trie \<Rightarrow> bool" where
  "canonical_within D t = (\<forall>k i. map_of t k = Some (Canonical i) \<longrightarrow> k \<in> D)"

text \<open>A match that passes the guard \<open>dist == 0 or k == seq\<close> of \<open>process_similar\<close>.\<close>

definition nontrivial :: "string \<Rightarrow> string \<times> entry \<times> nat \<Rightarrow> bool" where
  "nontrivial seq = (\<lambda>(k, v, dist). \<not> (dist = 0 \<or> k = seq))"

text \<open>A match whose value is a string: \<open>type(v) is int\<close> is false.\<close>

definition is_subsequence_entry :: "string \<times> entry \<times> nat \<Rightarrow> bool" where
  "is_subsequence_entry =
     (\<lambda>(k, v, dist). case v of Canonical i \<Rightarrow> False | SubsequenceOf p \<Rightarrow> True)"

text \<open>
  The bin that the first match of a lookup result routes to: the key of an integer entry,
  the parent of a string entry.
\<close>

fun first_bin :: "(string \<times> entry \<times> nat) list \<Rightarrow> string option" where
  "first_bin [] = None"
| "first_bin ((k, v, dist) # ms) = Some (case v of Canonical i \<Rightarrow> k | SubsequenceOf p \<Rightarrow> p)"

text \<open>
  The table is collapsed for the sequences in \<open>D\<close>: every match of a different length
  found in one of them has count 0.
\<close>

definition collapsed :: "trie \<Rightarrow> string set \<Rightarrow> counter \<Rightarrow> bool" where
  "collapsed t D c =
     (\<forall>p \<in> D. \<forall>x \<in> shorter_matches p (triefind_find p t). getitem c x = 0)"

text \<open>A table as the data model has it: no count is negative.\<close>

definition nonneg :: "counter \<Rightarrow> bool" where
  "nonneg c = (\<forall>v \<in> snd ` set c. 0 \<le> v)"

text \<open>The table of the spec's first scenario.\<close>

definition scenario_table :: counter where
  "scenario_table = [(''AAAA'', 3), (''AAAAGG'', 2), (''TTTT'', 5)]"

text \<open>Two sequences of equal length, one substitution apart.\<close>

definition near_pair :: counter where
  "near_pair = [(''AAAA'', 1), (''AAAT'', 2)]"

text \<open>Three sequences of equal length, pairwise one substitution apart.\<close>

definition three_near :: counter where
  "three_near = [(''AAAA'', 1), (''AAAT'', 2), (''AAAC'', 4)]"

text \<open>A long sequence and a short one that is one substitution away from two of its windows.\<close>

definition long_short :: counter where
  "long_short = [(''AAAAGG'', 2), (''AAAT'', 5)]"

text \<open>The bins of the spec's second scenario, its sample, and a sample that matches no bin.\<close>

definition scenario_bins :: counter where
  "scenario_bins = [(''ACGT'', 0), (''TGCA'', 0)]"

definition scenario_sample :: counter where
  "scenario_sample = [(''ACGA'', 4)]"

definition far_sample :: counter where
  "far_sample = [(''TTTT'', 4)]"

text \<open>A sequence whose own windows are within one deletion of it, and a second length.\<close>

definition own_window :: counter where
  "own_window = [(''AAAAG'', 2), (''TTTT'', 5)]"

section \<open>Tables\<close>

lemma map_of_setitem: "map_of (setitem k v c) = (map_of c)(k \<mapsto> v)"
  by (induction c) (auto simp: fun_eq_iff)

lemma getitem_setitem: "getitem (setitem k v c) x = (if x = k then v else getitem c x)"
  by (simp add: getitem_def map_of_setitem)

lemma keys_setitem:
  "map fst (setitem k v c) = (if k \<in> set (map fst c) then map fst c else map fst c @ [k])"
  by (induction c) force+

lemma distinct_setitem: "distinct (map fst c) \<Longrightarrow> distinct (map fst (setitem k v c))"
  by (simp add: keys_setitem)

lemma total_setitem: "total (setitem k v c) = total c - getitem c k + v"
  by (induction c) (auto simp: total_def getitem_def)

lemma has_key_setitem: "has_key (setitem k v t) x = (x = k \<or> has_key t x)"
  by (simp add: has_key_def map_of_setitem)

lemma set_by_length_desc: "set (by_length_desc xs) = set xs"
  by (simp add: by_length_desc_def)

lemma distinct_by_length_desc: "distinct (by_length_desc xs) = distinct xs"
  by (simp add: by_length_desc_def)

lemma longest_first: "sorted_wrt (\<lambda>a b. length b \<le> length a) (by_length_desc xs)"
proof -
  have "sorted (map (\<lambda>s. - int (length s)) (by_length_desc xs))"
    by (simp add: by_length_desc_def)
  then show ?thesis
    by (simp add: sorted_map sorted_wrt_iff_nth_less)
qed

lemma map_of_keep_positive:
  assumes "distinct (map fst c)"
  shows "map_of (keep_positive c) k = (if 0 < getitem c k then Some (getitem c k) else None)"
  using assms
proof (induction c)
  case Nil
  show ?case by (simp add: keep_positive_def getitem_def)
next
  case (Cons a c)
  obtain k' v' where a: "a = (k', v')" by (cases a)
  have notin: "k' \<notin> fst ` set c" using Cons.prems by (simp add: a)
  have none: "map_of (keep_positive c) k' = None"
    using notin by (force simp: keep_positive_def map_of_eq_None_iff)
  have ih: "map_of (keep_positive c) k = (if 0 < getitem c k then Some (getitem c k) else None)"
    using Cons by simp
  show ?case
  proof (cases "k = k'")
    case True
    then show ?thesis using none by (simp add: a keep_positive_def getitem_def)
  next
    case False
    then show ?thesis using ih by (simp add: a keep_positive_def getitem_def)
  qed
qed

section \<open>Exact substring collapse: one sequence\<close>

lemma finite_shorter_matches: "finite (shorter_matches seq ms)"
  by (simp add: shorter_matches_def)

lemma shorter_matches_Cons:
  "shorter_matches seq ((m, i, j) # ms) =
     (if length m = length seq then shorter_matches seq ms else insert m (shorter_matches seq ms))"
  by (auto simp: shorter_matches_def)

lemma seq_notin_shorter_matches: "seq \<notin> shorter_matches seq ms"
  by (simp add: shorter_matches_def)

lemma fold_exact_substring_match:
  "getitem (fold (exact_substring_match seq) ms c) x =
     (if x \<in> shorter_matches seq ms then 0
      else if x = seq then getitem c seq + sum (getitem c) (shorter_matches seq ms)
      else getitem c x)"
proof (induction ms arbitrary: c)
  case Nil
  show ?case by (simp add: shorter_matches_def)
next
  case (Cons a ms)
  obtain m i j where a: "a = (m, i, j)" by (cases a)
  let ?M = "shorter_matches seq ms"
  show ?case
  proof (cases "length m = length seq")
    case True
    then show ?thesis using Cons.IH [of c] by (simp add: a shorter_matches_Cons)
  next
    case False
    let ?c1 = "setitem m 0 (setitem seq (getitem c seq + getitem c m) c)"
    have neq: "m \<noteq> seq" using False by auto
    have c1: "getitem ?c1 y = (if y = m then 0 else if y = seq then getitem c seq + getitem c m
               else getitem c y)" for y
      by (simp add: getitem_setitem)
    have fin: "finite ?M" by (rule finite_shorter_matches)
    have notin: "seq \<notin> ?M" by (rule seq_notin_shorter_matches)
    have sum1: "sum (getitem ?c1) ?M = sum (getitem c) (?M - {m})"
    proof -
      have "sum (getitem ?c1) ?M = sum (\<lambda>y. if y = m then 0 else getitem c y) ?M"
        using notin by (intro sum.cong) (auto simp: c1)
      also have "\<dots> = sum (getitem c) (?M - {m})"
        using fin by (simp add: sum.If_cases Diff_eq Int_def)
      finally show ?thesis .
    qed
    have sum2: "getitem c m + sum (getitem c) (?M - {m}) = sum (getitem c) (insert m ?M)"
      using fin by (simp add: sum.insert_remove)
    have step: "fold (exact_substring_match seq) (a # ms) c =
                fold (exact_substring_match seq) ms ?c1"
      using False by (simp add: a)
    show ?thesis
      unfolding step Cons.IH [of ?c1]
      using False neq sum1 sum2 by (auto simp: a shorter_matches_Cons c1)
  qed
qed

lemma distinct_exact_substring_match:
  "distinct (map fst c) \<Longrightarrow> distinct (map fst (exact_substring_match seq x c))"
  by (cases x) (auto simp: distinct_setitem)

lemma distinct_fold_exact_substring_match:
  "distinct (map fst c) \<Longrightarrow> distinct (map fst (fold (exact_substring_match seq) ms c))"
  by (induction ms arbitrary: c) (auto simp: distinct_exact_substring_match)

lemma distinct_exact_substring_seq:
  "distinct (map fst c) \<Longrightarrow> distinct (map fst (exact_substring_seq fnd t seq c))"
  by (simp add: exact_substring_seq_def distinct_fold_exact_substring_match)

lemma distinct_fold_exact_substring_seq:
  "distinct (map fst c) \<Longrightarrow> distinct (map fst (fold (exact_substring_seq fnd t) seqs c))"
  by (induction seqs arbitrary: c) (auto simp: distinct_exact_substring_seq)

lemma distinct_exact_substring_loop:
  "distinct (map fst c) \<Longrightarrow> distinct (map fst (exact_substring_loop fnd c t))"
  by (simp add: exact_substring_loop_def distinct_fold_exact_substring_seq)

section \<open>Approximate clustering: one match\<close>

lemma distinct_similar_match:
  "distinct (map fst c) \<Longrightarrow> distinct (map fst (similar_match seq x c))"
  by (cases x) (auto simp: distinct_setitem split: entry.splits)

lemma distinct_fold_similar_match:
  "distinct (map fst c) \<Longrightarrow> distinct (map fst (fold (similar_match seq) ms c))"
  by (induction ms arbitrary: c) (auto simp: distinct_similar_match)

lemma distinct_similar_seq:
  "distinct (map fst c) \<Longrightarrow> distinct (map fst (similar_seq approx t n seq c))"
  by (simp add: similar_seq_def distinct_fold_similar_match)

lemma distinct_fold_similar_seq:
  "distinct (map fst c) \<Longrightarrow> distinct (map fst (fold (similar_seq approx t n) seqs c))"
  by (induction seqs arbitrary: c) (auto simp: distinct_similar_seq)

lemma distinct_similar_loop:
  "distinct (map fst c) \<Longrightarrow> distinct (map fst (similar_loop approx c t n))"
  by (simp add: similar_loop_def distinct_fold_similar_seq)

section \<open>Claims about the approximate clusterer\<close>

text \<open>
  C9. In \<open>process_similar\<close>, a returned match with distance 0, or whose key is the query
  sequence itself, changes no count: the table after the match is the table before it.
\<close>

theorem similar_trivial_match_unchanged:
  "dist = 0 \<or> k = seq \<Longrightarrow> similar_match seq (k, v, dist) counter = counter"
  by auto

theorem similar_trivial_match_unchanged_witness:
  "((0::nat) = 0 \<or> ''AAAT'' = ''AAAA'') \<and>
   similar_match ''AAAA'' (''AAAT'', Canonical 2, 0) near_pair = near_pair"
  using similar_trivial_match_unchanged [of 0 "''AAAT''" "''AAAA''" "Canonical 2" near_pair]
  by simp

text \<open>
  C2, as stated, fails: on the table \<open>AAAA: 1, AAAT: 2\<close> with its multi-resolution trie and
  one mismatch allowed, the query \<open>AAAA\<close> finds the Canonical entry \<open>AAAT\<close>; afterwards the
  query holds 3 and the matched sequence holds 0, where the claim has the matched sequence
  at 3 and the query at 0.
\<close>

theorem similar_canonical_direction_counterexample:
  "map_of (construct_complex_trie near_pair None) ''AAAT'' = Some (Canonical 2) \<and>
   unique_everseen match_key (get_approximate (construct_complex_trie near_pair None) ''AAAA'' 1)
     = [(''AAAA'', Canonical 1, 0), (''AAAT'', Canonical 2, 1)] \<and>
   similar_seq get_approximate (construct_complex_trie near_pair None) 1 ''AAAA'' near_pair
     = [(''AAAA'', 3), (''AAAT'', 0)]"
  by code_simp

text \<open>
  C2, amended. In \<open>process_similar\<close>, for every retained non-trivial match whose trie entry
  is Canonical, the operation adds the matched sequence's count into the query sequence's
  count and zeroes the matched sequence's count; every other count is unchanged.
\<close>

theorem similar_canonical_match:
  "dist \<noteq> 0 \<Longrightarrow> k \<noteq> seq \<Longrightarrow>
   getitem (similar_match seq (k, Canonical i, dist) counter) x =
     (if x = k then 0
      else if x = seq then getitem counter seq + getitem counter k
      else getitem counter x)"
  by (simp add: getitem_setitem)

theorem similar_canonical_match_witness:
  "(1::nat) \<noteq> 0 \<and> ''AAAT'' \<noteq> ''AAAA'' \<and>
   getitem (similar_match ''AAAA'' (''AAAT'', Canonical 2, 1) near_pair) ''AAAA'' = 3"
  using similar_canonical_match [of 1 "''AAAT''" "''AAAA''" 2 near_pair "''AAAA''"]
  by (simp add: near_pair_def getitem_def)

section \<open>Exact substring collapse: the whole pass\<close>

lemma getitem_exact_substring_seq:
  "getitem (exact_substring_seq fnd t seq c)
     = collapse_into seq (shorter_matches seq (fnd seq t)) (getitem c)"
  by (rule ext)
     (simp add: collapse_into_def exact_substring_seq_def fold_exact_substring_match)

lemma getitem_fold_exact_substring_seq:
  "getitem (fold (exact_substring_seq fnd t) xs c)
     = fold (\<lambda>seq. collapse_into seq (shorter_matches seq (fnd seq t))) xs (getitem c)"
  by (induction xs arbitrary: c) (simp_all add: getitem_exact_substring_seq)

lemma getitem_exact_substring_loop:
  "getitem (exact_substring_loop fnd counter t)
     = fold (\<lambda>seq. collapse_into seq (shorter_matches seq (fnd seq t)))
            (by_length_desc (map fst counter)) (getitem counter)"
  by (simp add: exact_substring_loop_def getitem_fold_exact_substring_seq)

lemma shorter_matches_strict:
  assumes "\<forall>m \<in> fst ` set ms. length m \<le> length seq"
  shows "shorter_matches seq ms = {m \<in> fst ` set ms. length m < length seq}"
  using assms by (auto simp: shorter_matches_def)

section \<open>Claims about the exact substring collapser\<close>

text \<open>
  C6. \<open>process_exact_substring\<close> processes the sequences longest first. With a finder whose
  matches are no longer than the sequence searched, the table it returns holds the positive
  counts that result from collapsing the sequences one after the other in that order, where
  collapsing a sequence adds the current count of every strictly shorter match found in it
  into the count of the sequence and then zeroes that match. Processing one sequence leaves
  every strictly shorter match with count 0, adds their counts to the count of the
  sequence and changes no other count; a match as long as the sequence changes nothing.
\<close>

theorem exact_substring_collapse:
  assumes "\<forall>m \<in> fst ` set (fnd seq t). length m \<le> length seq"
    and "distinct (map fst counter)"
    and "\<forall>s \<in> fst ` set counter. \<forall>m \<in> fst ` set (fnd s t). length m \<le> length s"
  shows "sorted_wrt (\<lambda>a b. length b \<le> length a) (by_length_desc (map fst counter)) \<and>
         set (by_length_desc (map fst counter)) = set (map fst counter) \<and>
         map_of (process_exact_substring fnd counter t) x =
           (if 0 < fold (\<lambda>s. collapse_into s {m \<in> fst ` set (fnd s t). length m < length s})
                        (by_length_desc (map fst counter)) (getitem counter) x
            then Some (fold (\<lambda>s. collapse_into s {m \<in> fst ` set (fnd s t). length m < length s})
                            (by_length_desc (map fst counter)) (getitem counter) x)
            else None) \<and>
         getitem (exact_substring_seq fnd t seq c) x =
           (if x \<in> {m \<in> fst ` set (fnd seq t). length m < length seq} then 0
            else if x = seq
              then getitem c seq
                   + sum (getitem c) {m \<in> fst ` set (fnd seq t). length m < length seq}
            else getitem c x) \<and>
         (length m = length seq \<longrightarrow> exact_substring_match seq (m, i, j) c = c)"
proof -
  have eq: "{m \<in> fst ` set (fnd seq t). length m < length seq} = shorter_matches seq (fnd seq t)"
    using assms(1) by (auto simp: shorter_matches_def)
  have folds: "fold (\<lambda>s. collapse_into s {m \<in> fst ` set (fnd s t). length m < length s})
                 (by_length_desc (map fst counter)) (getitem counter)
             = fold (\<lambda>s. collapse_into s (shorter_matches s (fnd s t)))
                 (by_length_desc (map fst counter)) (getitem counter)"
  proof (rule fold_cong)
    fix s assume "s \<in> set (by_length_desc (map fst counter))"
    then have "s \<in> fst ` set counter" by (simp add: set_by_length_desc)
    then have "\<forall>m \<in> fst ` set (fnd s t). length m \<le> length s" using assms(3) by blast
    then show "collapse_into s {m \<in> fst ` set (fnd s t). length m < length s}
             = collapse_into s (shorter_matches s (fnd s t))"
      by (simp add: shorter_matches_strict)
  qed simp_all
  have whole: "map_of (process_exact_substring fnd counter t) x =
      (if 0 < getitem (exact_substring_loop fnd counter t) x
       then Some (getitem (exact_substring_loop fnd counter t) x) else None)"
    unfolding process_exact_substring_def
    by (rule map_of_keep_positive) (rule distinct_exact_substring_loop [OF assms(2)])
  have one: "getitem (exact_substring_seq fnd t seq c) x =
           (if x \<in> shorter_matches seq (fnd seq t) then 0
            else if x = seq
              then getitem c seq + sum (getitem c) (shorter_matches seq (fnd seq t))
            else getitem c x)"
    by (simp add: exact_substring_seq_def fold_exact_substring_match)
  show ?thesis
    unfolding eq folds
    using whole one
    by (simp add: longest_first set_by_length_desc getitem_exact_substring_loop)
qed

theorem exact_substring_collapse_witness:
  "triefind_find ''AAAAGG'' (construct_simple_trie scenario_table)
     = [(''AAAA'', 0, 4), (''AAAAGG'', 0, 6)] \<and>
   getitem (exact_substring_seq triefind_find (construct_simple_trie scenario_table)
              ''AAAAGG'' scenario_table) ''AAAAGG'' = 5 \<and>
   getitem (exact_substring_seq triefind_find (construct_simple_trie scenario_table)
              ''AAAAGG'' scenario_table) ''AAAA'' = 0 \<and>
   map_of (process_exact_substring triefind_find scenario_table
             (construct_simple_trie scenario_table)) ''AAAAGG'' = Some 5 \<and>
   map_of (process_exact_substring triefind_find scenario_table
             (construct_simple_trie scenario_table)) ''AAAA'' = None \<and>
   map_of (process_exact_substring triefind_find scenario_table
             (construct_simple_trie scenario_table)) ''TTTT'' = Some 5"
proof -
  let ?t = "construct_simple_trie scenario_table"
  have ms: "triefind_find ''AAAAGG'' ?t = [(''AAAA'', 0, 4), (''AAAAGG'', 0, 6)]"
    by code_simp
  have ms2: "triefind_find ''AAAA'' ?t = [(''AAAA'', 0, 4)]" by code_simp
  have ms3: "triefind_find ''TTTT'' ?t = [(''TTTT'', 0, 4)]" by code_simp
  have h: "\<forall>m \<in> fst ` set (triefind_find ''AAAAGG'' ?t). length m \<le> length ''AAAAGG''"
    unfolding ms by simp
  have d: "distinct (map fst scenario_table)" by (simp add: scenario_table_def)
  have keys: "fst ` set scenario_table = {''AAAA'', ''AAAAGG'', ''TTTT''}"
    by (simp add: scenario_table_def)
  have b: "\<forall>s \<in> fst ` set scenario_table.
             \<forall>m \<in> fst ` set (triefind_find s ?t). length m \<le> length s"
    unfolding keys by (simp add: ms ms2 ms3)
  have s1: "{m \<in> fst ` set (triefind_find ''AAAAGG'' ?t). length m < length ''AAAAGG''}
              = {''AAAA''}"
    unfolding ms by auto
  have s2: "{m \<in> fst ` set (triefind_find ''AAAA'' ?t). length m < length ''AAAA''} = {}"
    unfolding ms2 by auto
  have s3: "{m \<in> fst ` set (triefind_find ''TTTT'' ?t). length m < length ''TTTT''} = {}"
    unfolding ms3 by auto
  have order: "by_length_desc (map fst scenario_table) = [''AAAAGG'', ''AAAA'', ''TTTT'']"
    by code_simp
  have g: "getitem scenario_table ''AAAAGG'' = 2" "getitem scenario_table ''AAAA'' = 3"
    "getitem scenario_table ''TTTT'' = 5"
    by (simp_all add: scenario_table_def getitem_def)
  let ?f = "collapse_into ''TTTT'' {} (collapse_into ''AAAA'' {}
              (collapse_into ''AAAAGG'' {''AAAA''} (getitem scenario_table)))"
  have f: "fold (\<lambda>s. collapse_into s {m \<in> fst ` set (triefind_find s ?t). length m < length s})
             [''AAAAGG'', ''AAAA'', ''TTTT''] (getitem scenario_table) = ?f"
    by (simp only: fold_simps o_apply id_apply s1 s2 s3)
  have v: "?f ''AAAAGG'' = 5" "?f ''AAAA'' = 0" "?f ''TTTT'' = 5"
    by (simp_all add: collapse_into_def g)
  note inst = exact_substring_collapse [where fnd = triefind_find and seq = "''AAAAGG''"
        and t = ?t and c = scenario_table and counter = scenario_table, OF h d b]
  note whole = inst [THEN conjunct2, THEN conjunct2, THEN conjunct1, unfolded order f]
  note one = inst [THEN conjunct2, THEN conjunct2, THEN conjunct2, THEN conjunct1, unfolded s1]
  have w1: "map_of (process_exact_substring triefind_find scenario_table ?t) ''AAAAGG'' = Some 5"
    using whole [of "''AAAAGG''"] by (simp only: v) simp
  have w2: "map_of (process_exact_substring triefind_find scenario_table ?t) ''AAAA'' = None"
    using whole [of "''AAAA''"] by (simp only: v) simp
  have w3: "map_of (process_exact_substring triefind_find scenario_table ?t) ''TTTT'' = Some 5"
    using whole [of "''TTTT''"] by (simp only: v) simp
  have o1: "getitem (exact_substring_seq triefind_find ?t ''AAAAGG'' scenario_table) ''AAAAGG'' = 5"
    using one [of "''AAAAGG''"] by (simp add: g)
  have o2: "getitem (exact_substring_seq triefind_find ?t ''AAAAGG'' scenario_table) ''AAAA'' = 0"
    using one [of "''AAAA''"] by simp
  show ?thesis using ms o1 o2 w1 w2 w3 by (intro conjI)
qed

section \<open>Claims about the returned key domain\<close>

text \<open>
  C5, as stated, fails: collapsing the table of the spec's first scenario merges \<open>AAAA\<close>
  away, and \<open>AAAA\<close> is not a key of the returned table.
\<close>

theorem merged_key_kept_counterexample:
  "''AAAA'' \<in> fst ` set scenario_table \<and>
   process_exact_substring triefind_find scenario_table (construct_simple_trie scenario_table)
     = [(''AAAAGG'', 5), (''TTTT'', 5)] \<and>
   ''AAAA'' \<notin> fst ` set (process_exact_substring triefind_find scenario_table
                             (construct_simple_trie scenario_table))"
  by code_simp

text \<open>
  C5, amended. The table returned by the Exact Substring Collapser or by the Approximate
  Clusterer holds exactly the keys whose count is positive after the merging, each with
  that count: a key that is merged away (count 0) is removed from the returned table.
\<close>

theorem returned_table_positive_keys:
  assumes "distinct (map fst counter)"
  shows "map_of (process_exact_substring fnd counter t) k =
           (if 0 < getitem (exact_substring_loop fnd counter t) k
            then Some (getitem (exact_substring_loop fnd counter t) k) else None) \<and>
         map_of (process_similar approx counter t n) k =
           (if 0 < getitem (similar_loop approx counter t n) k
            then Some (getitem (similar_loop approx counter t n) k) else None)"
  unfolding process_exact_substring_def process_similar_def
  using assms
  by (simp add: map_of_keep_positive distinct_exact_substring_loop distinct_similar_loop)

theorem returned_table_positive_keys_witness:
  "distinct (map fst scenario_table) \<and>
   map_of (process_exact_substring triefind_find scenario_table
             (construct_simple_trie scenario_table)) ''AAAA'' = None \<and>
   getitem (exact_substring_loop triefind_find scenario_table
             (construct_simple_trie scenario_table)) ''AAAA'' = 0"
proof -
  have d: "distinct (map fst scenario_table)" by (simp add: scenario_table_def)
  have z: "getitem (exact_substring_loop triefind_find scenario_table
             (construct_simple_trie scenario_table)) ''AAAA'' = 0"
    by code_simp
  show ?thesis
    using d z returned_table_positive_keys [OF d, of triefind_find
        "construct_simple_trie scenario_table" "''AAAA''" get_approximate 0]
    by simp
qed

section \<open>The multi-resolution trie: entries and first writer\<close>

lemma fold_invariant:
  assumes "\<And>x s. x \<in> set xs \<Longrightarrow> P s \<Longrightarrow> P (f x s)" and "P s"
  shows "P (fold f xs s)"
  using assms by (induction xs arbitrary: s) auto

lemma chunker_window:
  assumes "w \<in> set (chunker s l)" and "l \<le> length s"
  shows "length w = l \<and> sublist w s"
proof -
  from assms obtain i where i: "i < length s + 1 - l" and w: "w = take l (drop i s)"
    by (auto simp: chunker_def)
  have len: "length w = l" using i assms(2) by (simp add: w)
  have "take i s @ w @ drop l (drop i s) = s"
    unfolding w by (simp only: append_take_drop_id)
  then have "sublist w s" unfolding sublist_def by metis
  with len show ?thesis by simp
qed

lemma chunker_full: "chunker s (length s) = [s]"
  by (simp add: chunker_def)

lemma chunker_proper:
  assumes "w \<in> set (chunker s l)" and "l \<le> length s" and "w \<noteq> s"
  shows "length w < length s"
proof -
  have "l \<noteq> length s" using assms(1,3) by (auto simp: chunker_full)
  then show ?thesis using chunker_window [OF assms(1,2)] assms(2) by simp
qed

lemma sublist_in_chunker:
  assumes "sublist w s"
  shows "w \<in> set (chunker s (length w))"
proof -
  from assms obtain ps ss where s: "s = ps @ w @ ss" by (auto simp: sublist_def)
  have "take (length w) (drop (length ps) s) = w" by (simp add: s)
  moreover have "length ps < length s + 1 - length w" by (simp add: s)
  ultimately show ?thesis unfolding chunker_def by force
qed

lemma map_of_key: "k \<in> fst ` set c \<Longrightarrow> map_of c k = Some (getitem c k)"
  by (auto simp: getitem_def map_of_eq_None_iff split: option.splits)

lemma trie_ok_window:
  assumes "trie_ok counter t" and "seq \<in> fst ` set counter"
    and "w \<in> set (chunker seq l)" and "l \<le> length seq"
  shows "trie_ok counter (complex_trie_window counter seq w t)"
proof (cases "has_key t w")
  case True
  then show ?thesis using assms(1) by (simp add: complex_trie_window_def)
next
  case False
  show ?thesis
  proof (cases "w = seq")
    case True
    have "entry_ok counter seq (Canonical (getitem counter seq))"
      using assms(2) by (simp add: entry_ok_def map_of_key)
    then show ?thesis using assms(1) False True
      by (auto simp: complex_trie_window_def trie_ok_def map_of_setitem)
  next
    case neq: False
    have "entry_ok counter w (SubsequenceOf seq)"
      using assms(2) chunker_window [OF assms(3,4)] chunker_proper [OF assms(3,4) neq]
      by (simp add: entry_ok_def)
    then show ?thesis using assms(1) False neq
      by (auto simp: complex_trie_window_def trie_ok_def map_of_setitem)
  qed
qed

lemma trie_ok_length:
  assumes "trie_ok counter t" and "seq \<in> fst ` set counter"
  shows "trie_ok counter (complex_trie_length counter seq l t)"
proof (cases "l > length seq")
  case True
  then show ?thesis using assms(1) by (simp add: complex_trie_length_def)
next
  case False
  then have le: "l \<le> length seq" by simp
  have "trie_ok counter (fold (complex_trie_window counter seq) (chunker seq l) t)"
    by (rule fold_invariant [where P = "trie_ok counter"])
       (auto intro: trie_ok_window assms le)
  then show ?thesis using False by (simp add: complex_trie_length_def)
qed

lemma trie_ok_seq:
  assumes "trie_ok counter t" and "seq \<in> fst ` set counter"
  shows "trie_ok counter (complex_trie_seq counter lengths seq t)"
  unfolding complex_trie_seq_def
  by (rule fold_invariant [where P = "trie_ok counter"]) (auto intro: trie_ok_length assms)

lemma trie_ok_fold_seq:
  assumes "trie_ok counter t" and "set seqs \<subseteq> fst ` set counter"
  shows "trie_ok counter (fold (complex_trie_seq counter lengths) seqs t)"
  by (rule fold_invariant [where P = "trie_ok counter"]) (use assms in \<open>auto intro: trie_ok_seq\<close>)

lemma trie_ok_construct: "trie_ok counter (construct_complex_trie counter lengths)"
proof -
  have e: "trie_ok counter []" by (simp add: trie_ok_def)
  have s: "set (by_length_desc (map fst counter)) \<subseteq> fst ` set counter"
    by (simp add: set_by_length_desc)
  show ?thesis
    unfolding construct_complex_trie_def Let_def
    by (rule trie_ok_fold_seq [OF e s])
qed

lemma fold_reaches:
  assumes "x \<in> set xs" and "\<And>s. Q (f x s)" and "\<And>y s. Q s \<Longrightarrow> Q (f y s)"
  shows "Q (fold f xs s)"
proof -
  from assms(1) obtain ys zs where xs: "xs = ys @ x # zs" by (auto dest: split_list)
  have "Q (f x (fold f ys s))" by (rule assms(2))
  then have "Q (fold f zs (f x (fold f ys s)))"
    by (rule fold_invariant [where P = Q, rotated]) (rule assms(3))
  then show ?thesis by (simp add: xs)
qed

lemma window_first_writer:
  "map_of t k = Some v \<Longrightarrow> map_of (complex_trie_window counter seq w t) k = Some v"
  by (auto simp: complex_trie_window_def has_key_def map_of_setitem)

lemma length_first_writer:
  "map_of t k = Some v \<Longrightarrow> map_of (complex_trie_length counter seq l t) k = Some v"
  unfolding complex_trie_length_def
  by (auto intro: fold_invariant [where P = "\<lambda>t. map_of t k = Some v"] window_first_writer)

lemma seq_first_writer:
  "map_of t k = Some v \<Longrightarrow> map_of (complex_trie_seq counter lengths seq t) k = Some v"
  unfolding complex_trie_seq_def
  by (auto intro: fold_invariant [where P = "\<lambda>t. map_of t k = Some v"] length_first_writer)

lemma seqs_first_writer:
  "map_of t k = Some v \<Longrightarrow> map_of (fold (complex_trie_seq counter lengths) seqs t) k = Some v"
  by (auto intro: fold_invariant [where P = "\<lambda>t. map_of t k = Some v"] seq_first_writer)

lemma has_key_Some: "has_key t k = (\<exists>v. map_of t k = Some v)"
  by (simp add: has_key_def)

lemma window_keeps_key:
  "has_key t k \<Longrightarrow> has_key (complex_trie_window counter seq w t) k"
  unfolding has_key_Some using window_first_writer by blast

lemma length_keeps_key:
  "has_key t k \<Longrightarrow> has_key (complex_trie_length counter seq l t) k"
  unfolding has_key_Some using length_first_writer by blast

lemma seq_keeps_key:
  "has_key t k \<Longrightarrow> has_key (complex_trie_seq counter lengths seq t) k"
  unfolding has_key_Some using seq_first_writer by blast

lemma window_claimed: "has_key (complex_trie_window counter seq w t) w"
  by (simp add: complex_trie_window_def has_key_setitem)

lemma length_claimed:
  assumes "sublist w seq"
  shows "has_key (complex_trie_length counter seq (length w) t) w"
proof -
  have le: "length w \<le> length seq" using assms by (rule sublist_length_le)
  have "has_key (fold (complex_trie_window counter seq) (chunker seq (length w)) t) w"
  proof (rule fold_reaches [where x = w and Q = "\<lambda>t. has_key t w"])
    show "w \<in> set (chunker seq (length w))" using assms by (rule sublist_in_chunker)
    show "has_key (complex_trie_window counter seq w s) w" for s by (rule window_claimed)
    show "has_key s w \<Longrightarrow> has_key (complex_trie_window counter seq y s) w" for y s
      by (rule window_keeps_key)
  qed
  then show ?thesis using le by (simp add: complex_trie_length_def)
qed

lemma seq_claimed:
  assumes "sublist w seq" and "length w \<in> set lengths"
  shows "has_key (complex_trie_seq counter lengths seq t) w"
  unfolding complex_trie_seq_def
proof (rule fold_reaches [where x = "length w" and Q = "\<lambda>t. has_key t w"])
  show "length w \<in> set lengths" by (rule assms(2))
  show "has_key (complex_trie_length counter seq (length w) s) w" for s
    using assms(1) by (rule length_claimed)
  show "has_key s w \<Longrightarrow> has_key (complex_trie_length counter seq y s) w" for y s
    by (rule length_keeps_key)
qed

lemma seqs_claimed:
  assumes "p \<in> set seqs" and "sublist w p" and "length w \<in> set lengths"
  shows "has_key (fold (complex_trie_seq counter lengths) seqs t) w"
proof (rule fold_reaches [where x = p and Q = "\<lambda>t. has_key t w"])
  show "p \<in> set seqs" by (rule assms(1))
  show "has_key (complex_trie_seq counter lengths p s) w" for s
    using assms(2,3) by (rule seq_claimed)
  show "has_key s w \<Longrightarrow> has_key (complex_trie_seq counter lengths y s) w" for y s
    by (rule seq_keeps_key)
qed

lemma canonical_within_window:
  "canonical_within D t \<Longrightarrow> seq \<in> D \<Longrightarrow>
   canonical_within D (complex_trie_window counter seq w t)"
  by (auto simp: canonical_within_def complex_trie_window_def map_of_setitem split: if_splits)

lemma canonical_within_length:
  "canonical_within D t \<Longrightarrow> seq \<in> D \<Longrightarrow>
   canonical_within D (complex_trie_length counter seq l t)"
  unfolding complex_trie_length_def
  by (auto intro: fold_invariant [where P = "canonical_within D"] canonical_within_window)

lemma canonical_within_seq:
  "canonical_within D t \<Longrightarrow> seq \<in> D \<Longrightarrow>
   canonical_within D (complex_trie_seq counter lengths seq t)"
  unfolding complex_trie_seq_def
  by (auto intro: fold_invariant [where P = "canonical_within D"] canonical_within_length)

lemma canonical_within_seqs:
  "canonical_within D t \<Longrightarrow> set seqs \<subseteq> D \<Longrightarrow>
   canonical_within D (fold (complex_trie_seq counter lengths) seqs t)"
  by (rule fold_invariant [where P = "canonical_within D"])
     (auto intro: canonical_within_seq)

lemma default_lengths:
  "set (sort (remdups (map length (by_length_desc (map fst counter)))))
     = length ` fst ` set counter"
  by (simp add: set_by_length_desc)

lemma construct_complex_trie_default:
  "construct_complex_trie counter None =
     fold (complex_trie_seq counter (sort (remdups (map length (by_length_desc (map fst counter))))))
          (by_length_desc (map fst counter)) []"
  by (simp add: construct_complex_trie_def Let_def)

lemma own_key_claimed:
  assumes "s \<in> fst ` set counter"
  shows "has_key (construct_complex_trie counter None) s"
  unfolding construct_complex_trie_default
  by (rule seqs_claimed [where p = s]) (use assms in \<open>auto simp: set_by_length_desc\<close>)

lemma own_key_canonical:
  assumes "map_of counter s = Some i"
    and "\<not> (\<exists>p \<in> fst ` set counter. length s < length p \<and> sublist s p)"
  shows "map_of (construct_complex_trie counter None) s = Some (Canonical i)"
proof -
  have key: "s \<in> fst ` set counter" using assms(1) by (force dest: map_of_SomeD)
  from own_key_claimed [OF key] obtain v
    where v: "map_of (construct_complex_trie counter None) s = Some v"
    by (auto simp: has_key_Some)
  have ok: "entry_ok counter s v"
    using trie_ok_construct [of counter None] v by (simp add: trie_ok_def)
  show ?thesis
  proof (cases v)
    case (Canonical j)
    then show ?thesis using ok v assms(1) by (simp add: entry_ok_def)
  next
    case (SubsequenceOf p)
    then show ?thesis using ok assms(2) by (auto simp: entry_ok_def)
  qed
qed

lemma own_key_subsequence:
  assumes dist: "distinct (map fst counter)"
    and key: "s \<in> fst ` set counter"
    and longer: "p \<in> fst ` set counter" "length s < length p" "sublist s p"
  shows "\<exists>q \<in> fst ` set counter. length s < length q \<and> sublist s q \<and>
           map_of (construct_complex_trie counter None) s = Some (SubsequenceOf q)"
proof -
  let ?seqs = "by_length_desc (map fst counter)"
  let ?lens = "sort (remdups (map length ?seqs))"
  let ?f = "complex_trie_seq counter ?lens"
  have "s \<in> set ?seqs" using key by (simp add: set_by_length_desc)
  then obtain pre post where split: "?seqs = pre @ s # post" by (auto dest: split_list)
  have d: "distinct ?seqs" using dist by (simp add: distinct_by_length_desc)
  have s_notin: "s \<notin> set pre" using d unfolding split by simp
  have sorted: "sorted_wrt (\<lambda>a b. length b \<le> length a) (pre @ s # post)"
    using longest_first [of "map fst counter"] unfolding split .
  have "\<forall>b \<in> set post. length b \<le> length s"
    using sorted by (simp add: sorted_wrt_append)
  then have "p \<notin> set post" using longer(2) by auto
  moreover have "p \<in> set ?seqs" using longer(1) by (simp add: set_by_length_desc)
  moreover have "p \<noteq> s" using longer(2) by auto
  ultimately have p_pre: "p \<in> set pre" unfolding split by simp
  let ?t1 = "fold ?f pre []"
  have len: "length s \<in> set ?lens" using key by (simp add: set_by_length_desc)
  have "has_key ?t1 s" by (rule seqs_claimed [OF p_pre longer(3) len])
  then obtain v where v: "map_of ?t1 s = Some v" by (auto simp: has_key_Some)
  have "canonical_within (set pre) ?t1"
    by (rule canonical_within_seqs) (simp_all add: canonical_within_def)
  then have "\<forall>i. v \<noteq> Canonical i" using v s_notin by (auto simp: canonical_within_def)
  then obtain q where q: "v = SubsequenceOf q" by (cases v) auto
  have "map_of (fold ?f (s # post) ?t1) s = Some v" by (rule seqs_first_writer [OF v])
  then have final: "map_of (construct_complex_trie counter None) s = Some (SubsequenceOf q)"
    unfolding construct_complex_trie_default split q by simp
  have "entry_ok counter s (SubsequenceOf q)"
    using trie_ok_construct [of counter None] final by (simp add: trie_ok_def)
  then show ?thesis using final by (auto simp: entry_ok_def)
qed


section \<open>Claims about the multi-resolution trie\<close>

text \<open>
  C10. Every entry of the trie returned by \<open>construct_complex_trie\<close> is either the integer
  count that the table holds for the entry's key, or a string that is a key of the table,
  strictly longer than the entry's key, and contains the entry's key as a contiguous
  substring. (Proved for every choice of \<open>lengths\<close>, the default included.)
\<close>

theorem complex_trie_entries:
  "map_of (construct_complex_trie counter lengths) k = Some v \<Longrightarrow>
   (case v of
      Canonical i \<Rightarrow> map_of counter k = Some i
    | SubsequenceOf p \<Rightarrow> p \<in> fst ` set counter \<and> length k < length p \<and> sublist k p)"
  using trie_ok_construct [of counter lengths] by (simp add: trie_ok_def entry_ok_def)

theorem complex_trie_entries_witness:
  "map_of (construct_complex_trie scenario_table None) ''AAAG'' = Some (SubsequenceOf ''AAAAGG'')
   \<and> ''AAAAGG'' \<in> fst ` set scenario_table \<and> sublist ''AAAG'' ''AAAAGG''"
proof -
  have h: "map_of (construct_complex_trie scenario_table None) ''AAAG''
             = Some (SubsequenceOf ''AAAAGG'')"
    by code_simp
  show ?thesis using h complex_trie_entries [OF h] by simp
qed

text \<open>
  C4, as stated, fails: in the table of the spec's first scenario the key \<open>AAAA\<close> (count 3)
  ends up mapped to a SubsequenceOf entry pointing at the longer sequence \<open>AAAAGG\<close>, whose
  windows of length 4 are registered before \<open>AAAA\<close> itself is processed.
\<close>

theorem own_key_canonical_counterexample:
  "map_of scenario_table ''AAAA'' = Some 3 \<and>
   map_of (construct_complex_trie scenario_table None) ''AAAA''
     = Some (SubsequenceOf ''AAAAGG'')"
  by code_simp

text \<open>
  C4, amended. In the multi-resolution trie built by \<open>construct_complex_trie\<close> with default
  lengths, a key of the table that is not a contiguous substring of a strictly longer key
  of the table ends up mapped to a Canonical entry (its count); a key that is a contiguous
  substring of a strictly longer key ends up mapped to a SubsequenceOf entry pointing at a
  strictly longer key that contains it.
\<close>

theorem complex_trie_own_key:
  assumes "distinct (map fst counter)" and "map_of counter s = Some i"
  shows "((\<exists>p \<in> fst ` set counter. length s < length p \<and> sublist s p) \<longrightarrow>
            (\<exists>q \<in> fst ` set counter. length s < length q \<and> sublist s q \<and>
               map_of (construct_complex_trie counter None) s = Some (SubsequenceOf q))) \<and>
         (\<not> (\<exists>p \<in> fst ` set counter. length s < length p \<and> sublist s p) \<longrightarrow>
            map_of (construct_complex_trie counter None) s = Some (Canonical i))"
proof -
  have key: "s \<in> fst ` set counter" using assms(2) by (force dest: map_of_SomeD)
  show ?thesis
    using own_key_subsequence [OF assms(1) key] own_key_canonical [OF assms(2)] by blast
qed

theorem complex_trie_own_key_witness:
  "map_of (construct_complex_trie scenario_table None) ''TTTT'' = Some (Canonical 5) \<and>
   (\<exists>q \<in> fst ` set scenario_table. length ''AAAA'' < length q \<and> sublist ''AAAA'' q \<and>
      map_of (construct_complex_trie scenario_table None) ''AAAA'' = Some (SubsequenceOf q))"
proof -
  have d: "distinct (map fst scenario_table)" by (simp add: scenario_table_def)
  have t: "map_of scenario_table ''TTTT'' = Some 5" by (simp add: scenario_table_def)
  have a: "map_of scenario_table ''AAAA'' = Some 3" by (simp add: scenario_table_def)
  have keys: "fst ` set scenario_table = {''AAAA'', ''AAAAGG'', ''TTTT''}"
    by (simp add: scenario_table_def)
  have ns: "\<not> sublist ''TTTT'' ''AAAAGG''" by code_simp
  have no: "\<not> (\<exists>p \<in> fst ` set scenario_table. length ''TTTT'' < length p \<and> sublist ''TTTT'' p)"
    unfolding keys using ns by simp
  have "sublist ''AAAA'' ''AAAAGG''" by code_simp
  then have yes: "\<exists>p \<in> fst ` set scenario_table. length ''AAAA'' < length p \<and> sublist ''AAAA'' p"
    unfolding keys by simp
  show ?thesis
    using no yes complex_trie_own_key [OF d t] complex_trie_own_key [OF d a] by blast
qed

section \<open>Approximate clustering: the matches of one sequence\<close>

lemma similar_trivial: "\<not> nontrivial seq m \<Longrightarrow> similar_match seq m c = c"
  by (cases m) (auto simp: nontrivial_def)

lemma similar_subsequence_zero_unchanged:
  assumes "getitem c seq = 0" and "is_subsequence_entry m"
  shows "getitem (similar_match seq m c) x = getitem c x"
proof -
  obtain k v d where m: "m = (k, v, d)" by (cases m)
  from assms(2) obtain p where v: "v = SubsequenceOf p"
    by (cases v) (auto simp: m is_subsequence_entry_def)
  show ?thesis using assms(1) by (simp add: m v getitem_setitem)
qed

lemma similar_subsequence_zeroes:
  assumes "nontrivial seq m" and "is_subsequence_entry m"
  shows "getitem (similar_match seq m c) seq = 0"
proof -
  obtain k v d where m: "m = (k, v, d)" by (cases m)
  from assms(2) obtain p where v: "v = SubsequenceOf p"
    by (cases v) (auto simp: m is_subsequence_entry_def)
  show ?thesis using assms(1) by (auto simp: m v nontrivial_def getitem_setitem)
qed

lemma fold_similar_subsequence_zero:
  assumes "getitem c seq = 0"
    and "\<forall>m \<in> set ms. nontrivial seq m \<longrightarrow> is_subsequence_entry m"
  shows "getitem (fold (similar_match seq) ms c) x = getitem c x"
  using assms
proof (induction ms arbitrary: c)
  case Nil
  show ?case by simp
next
  case (Cons m ms)
  have same: "getitem (similar_match seq m c) y = getitem c y" for y
  proof (cases "nontrivial seq m")
    case True
    then have "is_subsequence_entry m" using Cons.prems(2) by simp
    then show ?thesis by (rule similar_subsequence_zero_unchanged [OF Cons.prems(1)])
  next
    case False
    then show ?thesis by (simp add: similar_trivial)
  qed
  have "getitem (fold (similar_match seq) ms (similar_match seq m c)) x
          = getitem (similar_match seq m c) x"
    using Cons.prems(2) by (intro Cons.IH) (simp_all add: same Cons.prems(1))
  then show ?case by (simp add: same)
qed

lemma similar_first_accepted:
  assumes "\<forall>m \<in> set ms. nontrivial seq m \<longrightarrow> is_subsequence_entry m"
  shows "getitem (fold (similar_match seq) ms c) x =
           getitem (fold (similar_match seq) (take 1 (filter (nontrivial seq) ms)) c) x"
  using assms
proof (induction ms)
  case Nil
  show ?case by simp
next
  case (Cons m ms)
  show ?case
  proof (cases "nontrivial seq m")
    case False
    then show ?thesis using Cons by (simp add: similar_trivial)
  next
    case True
    then have sub: "is_subsequence_entry m" using Cons.prems by simp
    have zero: "getitem (similar_match seq m c) seq = 0"
      by (rule similar_subsequence_zeroes [OF True sub])
    have "getitem (fold (similar_match seq) ms (similar_match seq m c)) x
            = getitem (similar_match seq m c) x"
      using Cons.prems by (intro fold_similar_subsequence_zero [OF zero]) simp
    then show ?thesis using True by simp
  qed
qed

lemma similar_first_accepted_zero:
  assumes "\<forall>m \<in> set ms. nontrivial seq m \<longrightarrow> is_subsequence_entry m"
    and "filter (nontrivial seq) ms \<noteq> []"
  shows "getitem (fold (similar_match seq) ms c) seq = 0"
proof -
  from assms(2) obtain m rest where f: "filter (nontrivial seq) ms = m # rest"
    by (cases "filter (nontrivial seq) ms") auto
  then have "m \<in> set (filter (nontrivial seq) ms)" by simp
  then have nt: "nontrivial seq m" and sub: "is_subsequence_entry m"
    using assms(1) by auto
  have "getitem (similar_match seq m c) seq = 0"
    by (rule similar_subsequence_zeroes [OF nt sub])
  then show ?thesis
    unfolding similar_first_accepted [OF assms(1)] f by simp
qed

section \<open>Claims about the matches of one query\<close>

text \<open>
  C3, as stated, fails: on three sequences that are pairwise one substitution apart, the
  query \<open>AAAA\<close> has two accepted matches, both Canonical. After the first accepted match the
  query's count is 3, not zero, and the second accepted match moves a count of 4.
\<close>

theorem similar_first_match_only_counterexample:
  "unique_everseen match_key
     (get_approximate (construct_complex_trie three_near None) ''AAAA'' 1)
     = [(''AAAA'', Canonical 1, 0), (''AAAT'', Canonical 2, 1), (''AAAC'', Canonical 4, 1)] \<and>
   fold (similar_match ''AAAA'') [(''AAAA'', Canonical 1, 0), (''AAAT'', Canonical 2, 1)]
     three_near = [(''AAAA'', 3), (''AAAT'', 0), (''AAAC'', 4)] \<and>
   similar_seq get_approximate (construct_complex_trie three_near None) 1 ''AAAA'' three_near
     = [(''AAAA'', 7), (''AAAT'', 0), (''AAAC'', 0)]"
  by code_simp

text \<open>
  C3, amended. In \<open>process_similar\<close>, for every query sequence whose accepted (non-trivial)
  matches are all SubsequenceOf entries, after its first accepted match its own count is
  zero, and every subsequent match moves zero mass: the counts after the whole result list
  are the counts after the first accepted match alone.
\<close>

theorem similar_only_first_subsequence_match:
  assumes "\<forall>m \<in> set ms. nontrivial seq m \<longrightarrow> is_subsequence_entry m"
  shows "(filter (nontrivial seq) ms \<noteq> [] \<longrightarrow> getitem (fold (similar_match seq) ms c) seq = 0) \<and>
         getitem (fold (similar_match seq) ms c) x =
           getitem (fold (similar_match seq) (take 1 (filter (nontrivial seq) ms)) c) x"
  using similar_first_accepted [OF assms] similar_first_accepted_zero [OF assms] by blast

theorem similar_only_first_subsequence_match_witness:
  "unique_everseen match_key (get_approximate (construct_complex_trie long_short None) ''AAAT'' 1)
     = [(''AAAA'', SubsequenceOf ''AAAAGG'', 1), (''AAAG'', SubsequenceOf ''AAAAGG'', 1),
        (''AAAT'', Canonical 5, 0)] \<and>
   getitem (fold (similar_match ''AAAT'')
              [(''AAAA'', SubsequenceOf ''AAAAGG'', 1), (''AAAG'', SubsequenceOf ''AAAAGG'', 1),
               (''AAAT'', Canonical 5, 0)] long_short) ''AAAAGG'' = 7 \<and>
   getitem (fold (similar_match ''AAAT'')
              [(''AAAA'', SubsequenceOf ''AAAAGG'', 1), (''AAAG'', SubsequenceOf ''AAAAGG'', 1),
               (''AAAT'', Canonical 5, 0)] long_short) ''AAAT'' = 0"
proof -
  let ?ms = "[(''AAAA'', SubsequenceOf ''AAAAGG'', 1::nat), (''AAAG'', SubsequenceOf ''AAAAGG'', 1),
              (''AAAT'', Canonical 5, 0)]"
  have q: "unique_everseen match_key
             (get_approximate (construct_complex_trie long_short None) ''AAAT'' 1) = ?ms"
    by code_simp
  have h: "\<forall>m \<in> set ?ms. nontrivial ''AAAT'' m \<longrightarrow> is_subsequence_entry m"
    by (simp add: nontrivial_def is_subsequence_entry_def)
  have f: "take 1 (filter (nontrivial ''AAAT'') ?ms) = [(''AAAA'', SubsequenceOf ''AAAAGG'', 1)]"
    by (simp add: nontrivial_def)
  let ?one = "[(''AAAA'', SubsequenceOf ''AAAAGG'', 1::nat)]"
  have v1: "getitem (fold (similar_match ''AAAT'') ?one long_short) ''AAAAGG'' = 7"
    by code_simp
  have v2: "getitem (fold (similar_match ''AAAT'') ?one long_short) ''AAAT'' = 0"
    by code_simp
  have e1: "getitem (fold (similar_match ''AAAT'') ?ms long_short) ''AAAAGG''
              = getitem (fold (similar_match ''AAAT'') ?one long_short) ''AAAAGG''"
    using similar_only_first_subsequence_match [OF h, of long_short "''AAAAGG''"]
    unfolding f by blast
  have e2: "getitem (fold (similar_match ''AAAT'') ?ms long_short) ''AAAT''
              = getitem (fold (similar_match ''AAAT'') ?one long_short) ''AAAT''"
    using similar_only_first_subsequence_match [OF h, of long_short "''AAAT''"]
    unfolding f by blast
  show ?thesis
    using q e1 e2 by (simp only: v1 v2 simp_thms)
qed

section \<open>Bin classification: routing\<close>

lemma first_bin_unique_everseen: "first_bin (unique_everseen key ms) = first_bin ms"
  by (cases ms) (auto simp: unique_everseen_def)

lemma unique_everseen_Nil: "(unique_everseen key ms = []) = (ms = [])"
  by (cases ms) (auto simp: unique_everseen_def)

lemma matrix_match_first:
  "getitem (fst (similar_matrix_match seq m (b, s))) y =
     getitem b y + (if first_bin [m] = Some y then getitem s seq else 0) \<and>
   getitem (snd (similar_matrix_match seq m (b, s))) x = (if x = seq then 0 else getitem s x)"
proof -
  obtain k v d where m: "m = (k, v, d)" by (cases m)
  show ?thesis by (cases v) (auto simp: m getitem_setitem)
qed

lemma matrix_match_zero:
  assumes "getitem s seq = 0"
  shows "getitem (fst (similar_matrix_match seq m (b, s))) y = getitem b y \<and>
         getitem (snd (similar_matrix_match seq m (b, s))) x = getitem s x"
  using assms matrix_match_first [of seq m b s y x] by auto

lemma fold_matrix_match_zero:
  assumes "getitem (snd st) seq = 0"
  shows "getitem (fst (fold (similar_matrix_match seq) ms st)) y = getitem (fst st) y \<and>
         getitem (snd (fold (similar_matrix_match seq) ms st)) x = getitem (snd st) x"
  using assms
proof (induction ms arbitrary: st)
  case Nil
  show ?case by simp
next
  case (Cons m ms)
  obtain b s where st: "st = (b, s)" by (cases st)
  have z: "getitem s seq = 0" using Cons.prems by (simp add: st)
  let ?st1 = "similar_matrix_match seq m (b, s)"
  have same: "getitem (fst ?st1) y' = getitem b y' \<and> getitem (snd ?st1) x' = getitem s x'"
    for y' x'
    by (rule matrix_match_zero [OF z])
  have z1: "getitem (snd ?st1) seq = 0" using same z by simp
  show ?case using Cons.IH [OF z1] same by (simp add: st)
qed

lemma fold_matrix_match:
  "getitem (fst (fold (similar_matrix_match seq) ms (b, s))) y =
     getitem b y + (if first_bin ms = Some y then getitem s seq else 0) \<and>
   getitem (snd (fold (similar_matrix_match seq) ms (b, s))) x =
     (if x = seq \<and> ms \<noteq> [] then 0 else getitem s x)"
proof (cases ms)
  case Nil
  then show ?thesis by simp
next
  case (Cons m rest)
  let ?st1 = "similar_matrix_match seq m (b, s)"
  have first: "getitem (fst ?st1) y' =
                 getitem b y' + (if first_bin [m] = Some y' then getitem s seq else 0) \<and>
               getitem (snd ?st1) x' = (if x' = seq then 0 else getitem s x')" for y' x'
    by (rule matrix_match_first)
  have z1: "getitem (snd ?st1) seq = 0" using first by simp
  have fb: "first_bin (m # rest) = first_bin [m]" by (cases m) simp
  show ?thesis
    unfolding Cons fb
    using fold_matrix_match_zero [OF z1, of rest y x] first [of y x]
    by (simp del: first_bin.simps)
qed

lemma similar_matrix_seq_effect:
  "getitem (fst (similar_matrix_seq approx t n seq (b, s))) y =
     getitem b y + (if first_bin (approx t seq n) = Some y then getitem s seq else 0) \<and>
   getitem (snd (similar_matrix_seq approx t n seq (b, s))) x =
     (if x = seq \<and> approx t seq n \<noteq> [] then 0 else getitem s x)"
  unfolding similar_matrix_seq_def
  using fold_matrix_match [of seq "unique_everseen match_key (approx t seq n)" b s y x]
  by (simp add: first_bin_unique_everseen unique_everseen_Nil)

lemma fold_similar_matrix_seq:
  assumes "distinct xs"
  shows "getitem (fst (fold (similar_matrix_seq approx t n) xs (b, s))) y =
           getitem b y
           + sum_list (map (\<lambda>q. if first_bin (approx t q n) = Some y then getitem s q else 0) xs) \<and>
         getitem (snd (fold (similar_matrix_seq approx t n) xs (b, s))) x =
           (if x \<in> set xs \<and> approx t x n \<noteq> [] then 0 else getitem s x)"
  using assms
proof (induction xs arbitrary: b s)
  case Nil
  show ?case by simp
next
  case (Cons q xs)
  obtain b1 s1 where st1: "similar_matrix_seq approx t n q (b, s) = (b1, s1)"
    by (cases "similar_matrix_seq approx t n q (b, s)")
  have b1: "getitem b1 z =
      getitem b z + (if first_bin (approx t q n) = Some z then getitem s q else 0)" for z
    using similar_matrix_seq_effect [of approx t n q b s z] by (simp add: st1)
  have s1: "getitem s1 z = (if z = q \<and> approx t q n \<noteq> [] then 0 else getitem s z)" for z
    using similar_matrix_seq_effect [of approx t n q b s _ z] by (simp add: st1)
  have d: "distinct xs" and qn: "q \<notin> set xs" using Cons.prems by simp_all
  have same: "map (\<lambda>r. if first_bin (approx t r n) = Some y then getitem s1 r else 0) xs
            = map (\<lambda>r. if first_bin (approx t r n) = Some y then getitem s r else 0) xs"
    using qn by (intro map_cong) (auto simp: s1)
  show ?case
    using Cons.IH [OF d, of b1 s1] qn
    by (auto simp: st1 same b1 s1)
qed


lemma sum_list_by_length_desc:
  assumes "distinct xs"
  shows "sum_list (map (\<lambda>q. if P q then f q else (0::int)) (by_length_desc xs))
           = sum f {q \<in> set xs. P q}"
proof -
  have d: "distinct (by_length_desc xs)" using assms by (simp add: distinct_by_length_desc)
  have "sum_list (map (\<lambda>q. if P q then f q else 0) (by_length_desc xs))
          = sum (\<lambda>q. if P q then f q else 0) (set (by_length_desc xs))"
    using d by (rule sum_list_distinct_conv_sum_set)
  also have "\<dots> = sum f {q \<in> set xs. P q}"
    by (simp add: set_by_length_desc sum.inter_filter)
  finally show ?thesis .
qed

section \<open>Claims about the bin classifier\<close>

text \<open>
  C8, as stated, fails: a sample sequence that matches no bin keeps its count, and no bin
  receives its mass.
\<close>

theorem single_destination_counterexample:
  "get_approximate (construct_complex_trie scenario_bins None) ''TTTT'' 1 = [] \<and>
   process_similar_matrix get_approximate scenario_bins far_sample
     (construct_complex_trie scenario_bins None) 1 = ([(''ACGT'', 0), (''TGCA'', 0)], [(''TTTT'', 4)])"
  by code_simp

text \<open>
  C8, amended. In \<open>process_similar_matrix\<close>, a sample sequence with at least one match has
  count 0 in the sample table after classification, and its mass went to exactly one bin,
  the one determined by its first match; a sample sequence without a match keeps its count
  and changes no bin. So every bin ends with its initial count plus the counts of the
  sample sequences whose first match routes to it.
\<close>

theorem single_destination_routing:
  assumes "distinct (map fst seqs)"
  shows "getitem (snd (process_similar_matrix approx bins seqs t n)) x =
           (if x \<in> fst ` set seqs \<and> approx t x n \<noteq> [] then 0 else getitem seqs x) \<and>
         getitem (fst (process_similar_matrix approx bins seqs t n)) y =
           getitem bins y
           + sum (getitem seqs) {q \<in> fst ` set seqs. first_bin (approx t q n) = Some y}"
proof -
  have d: "distinct (by_length_desc (map fst seqs))"
    using assms by (simp add: distinct_by_length_desc)
  show ?thesis
    unfolding process_similar_matrix_def
    using fold_similar_matrix_seq [OF d, of approx t n bins seqs y x]
          sum_list_by_length_desc [OF assms,
            of "\<lambda>q. first_bin (approx t q n) = Some y" "getitem seqs"]
    by (simp add: set_by_length_desc)
qed

theorem single_destination_routing_witness:
  "getitem (snd (process_similar_matrix get_approximate scenario_bins scenario_sample
                   (construct_complex_trie scenario_bins None) 1)) ''ACGA'' = 0 \<and>
   getitem (fst (process_similar_matrix get_approximate scenario_bins scenario_sample
                   (construct_complex_trie scenario_bins None) 1)) ''ACGT'' = 4 \<and>
   getitem (fst (process_similar_matrix get_approximate scenario_bins scenario_sample
                   (construct_complex_trie scenario_bins None) 1)) ''TGCA'' = 0"
proof -
  let ?t = "construct_complex_trie scenario_bins None"
  have d: "distinct (map fst scenario_sample)" by (simp add: scenario_sample_def)
  have q: "get_approximate ?t ''ACGA'' 1 = [(''ACGT'', Canonical 0, 1)]" by code_simp
  have keys: "fst ` set scenario_sample = {''ACGA''}" by (simp add: scenario_sample_def)
  have g: "getitem scenario_sample ''ACGA'' = 4" "getitem scenario_bins ''ACGT'' = 0"
    "getitem scenario_bins ''TGCA'' = 0"
    by (simp_all add: scenario_sample_def scenario_bins_def getitem_def)
  have s1: "{q \<in> fst ` set scenario_sample. first_bin (get_approximate ?t q 1) = Some ''ACGT''}
              = {''ACGA''}"
    unfolding keys using q by auto
  have s2: "{q \<in> fst ` set scenario_sample. first_bin (get_approximate ?t q 1) = Some ''TGCA''}
              = {}"
    unfolding keys using q by auto
  show ?thesis
    using single_destination_routing [OF d, of get_approximate scenario_bins ?t 1
            "''ACGA''" "''ACGT''"]
          single_destination_routing [OF d, of get_approximate scenario_bins ?t 1
            "''ACGA''" "''TGCA''"]
    unfolding s1 s2 using q by (simp add: g keys)
qed

section \<open>Exact substring collapse with the library's finder\<close>

lemma set_match_all: "set (match_all s t) = {w. w \<noteq> [] \<and> prefix w s \<and> has_key t w}"
proof -
  have "(\<lambda>i. take (Suc i) s) ` {0..<length s} = {w. w \<noteq> [] \<and> prefix w s}"
  proof (intro set_eqI iffI)
    fix w assume "w \<in> (\<lambda>i. take (Suc i) s) ` {0..<length s}"
    then obtain i where i: "i < length s" and w: "w = take (Suc i) s" by auto
    have "w \<noteq> []" using i by (cases s) (auto simp: w)
    then show "w \<in> {w. w \<noteq> [] \<and> prefix w s}" by (simp add: w take_is_prefix)
  next
    fix w assume "w \<in> {w. w \<noteq> [] \<and> prefix w s}"
    then have ne: "w \<noteq> []" and p: "prefix w s" by simp_all
    from p obtain r where s: "s = w @ r" by (auto simp: prefix_def)
    from ne obtain j where j: "length w = Suc j" by (cases w) auto
    have "w = take (Suc j) s" by (simp add: s j [symmetric])
    moreover have "j < length s" using j by (simp add: s)
    ultimately show "w \<in> (\<lambda>i. take (Suc i) s) ` {0..<length s}" by auto
  qed
  then show ?thesis by (auto simp: match_all_def)
qed

lemma matches_triefind_find:
  "fst ` set (triefind_find s t) = {w. w \<noteq> [] \<and> sublist w s \<and> has_key t w}"
proof (intro set_eqI iffI)
  fix w assume "w \<in> fst ` set (triefind_find s t)"
  then obtain start where "start < length s" and "w \<in> set (match_all (drop start s) t)"
    by (auto simp: triefind_find_def)
  then have "w \<noteq> []" "prefix w (drop start s)" "has_key t w" by (simp_all add: set_match_all)
  moreover have "sublist w s"
    using \<open>prefix w (drop start s)\<close> suffix_drop [of start s] sublist_altdef' by blast
  ultimately show "w \<in> {w. w \<noteq> [] \<and> sublist w s \<and> has_key t w}" by simp
next
  fix w assume "w \<in> {w. w \<noteq> [] \<and> sublist w s \<and> has_key t w}"
  then have ne: "w \<noteq> []" and sub: "sublist w s" and hk: "has_key t w" by simp_all
  from sub obtain ps ss where s: "s = ps @ w @ ss" by (auto simp: sublist_def)
  have start: "length ps < length s" using ne by (simp add: s)
  have "prefix w (drop (length ps) s)" by (simp add: s)
  then have "w \<in> set (match_all (drop (length ps) s) t)" using ne hk by (simp add: set_match_all)
  then have "(w, length ps, length ps + length w) \<in> set (triefind_find s t)"
    using start by (auto simp: triefind_find_def)
  then show "w \<in> fst ` set (triefind_find s t)" by force
qed

lemma shorter_matches_find:
  "shorter_matches s (triefind_find s t) =
     {w. w \<noteq> [] \<and> sublist w s \<and> has_key t w \<and> length w \<noteq> length s}"
  unfolding shorter_matches_def matches_triefind_find by auto

lemma shorter_matches_trans:
  assumes "m \<in> shorter_matches s (triefind_find s t)"
    and "m' \<in> shorter_matches m (triefind_find m t)"
  shows "m' \<in> shorter_matches s (triefind_find s t)"
proof -
  from assms have a: "sublist m s" "length m \<noteq> length s" "m' \<noteq> []" "sublist m' m"
    "has_key t m'" "length m' \<noteq> length m"
    by (simp_all add: shorter_matches_find)
  have "sublist m' s" using a(4) a(1) by (rule sublist_order.order_trans)
  moreover have "length m' < length s"
    using sublist_length_le [OF a(1)] sublist_length_le [OF a(4)] a(2,6) by simp
  ultimately show ?thesis using a(3,5) by (simp add: shorter_matches_find)
qed

lemma exact_substring_seq_effect:
  "getitem (exact_substring_seq fnd t seq c) x =
     (if x \<in> shorter_matches seq (fnd seq t) then 0
      else if x = seq then getitem c seq + sum (getitem c) (shorter_matches seq (fnd seq t))
      else getitem c x)"
  by (simp add: exact_substring_seq_def fold_exact_substring_match)

lemma collapsed_step:
  assumes "collapsed t D c"
  shows "collapsed t (insert s D) (exact_substring_seq triefind_find t s c)"
  unfolding collapsed_def
proof (intro ballI)
  fix p x
  assume p: "p \<in> insert s D" and x: "x \<in> shorter_matches p (triefind_find p t)"
  let ?M = "shorter_matches s (triefind_find s t)"
  show "getitem (exact_substring_seq triefind_find t s c) x = 0"
  proof (cases "x \<in> ?M")
    case True
    then show ?thesis by (simp add: exact_substring_seq_effect)
  next
    case False
    then have pD: "p \<in> D" using p x by auto
    then have x0: "getitem c x = 0" using assms x by (simp add: collapsed_def)
    show ?thesis
    proof (cases "x = s")
      case True
      have "getitem c m = 0" if "m \<in> ?M" for m
      proof -
        have "m \<in> shorter_matches p (triefind_find p t)"
          using x that unfolding True by (rule shorter_matches_trans)
        then show ?thesis using assms pD by (simp add: collapsed_def)
      qed
      then have "sum (getitem c) ?M = 0" by simp
      then show ?thesis using False x0 True by (simp add: exact_substring_seq_effect)
    next
      case neq: False
      then show ?thesis using False x0 by (simp add: exact_substring_seq_effect)
    qed
  qed
qed

lemma collapsed_fold:
  assumes "collapsed t D c"
  shows "collapsed t (D \<union> set xs) (fold (exact_substring_seq triefind_find t) xs c)"
  using assms
proof (induction xs arbitrary: D c)
  case Nil
  then show ?case by simp
next
  case (Cons s xs)
  have "collapsed t (insert s D \<union> set xs)
          (fold (exact_substring_seq triefind_find t) xs (exact_substring_seq triefind_find t s c))"
    by (rule Cons.IH [OF collapsed_step [OF Cons.prems]])
  then show ?case by simp
qed

lemma collapsed_loop:
  "collapsed t (fst ` set c) (exact_substring_loop triefind_find c t)"
proof -
  have "collapsed t {} c" by (simp add: collapsed_def)
  from collapsed_fold [OF this, of "by_length_desc (map fst c)"]
  show ?thesis by (simp add: exact_substring_loop_def set_by_length_desc)
qed


lemma has_key_fold_simple:
  "has_key (fold (\<lambda>(seq, count) t. setitem seq (Canonical count) t) c t0) k
     = (k \<in> fst ` set c \<or> has_key t0 k)"
  by (induction c arbitrary: t0) (auto simp: has_key_setitem)

lemma has_key_simple_trie: "has_key (construct_simple_trie c) k = (k \<in> fst ` set c)"
  unfolding construct_simple_trie_def has_key_fold_simple by (simp add: has_key_def)

lemma keys_exact_substring_match:
  assumes "seq \<in> fst ` set c" and "fst m \<in> fst ` set c"
  shows "map fst (exact_substring_match seq m c) = map fst c"
proof -
  obtain w i j where m: "m = (w, i, j)" by (cases m)
  show ?thesis using assms by (simp add: m keys_setitem)
qed

lemma keys_fold_exact_substring_match:
  assumes "seq \<in> fst ` set c" and "fst ` set ms \<subseteq> fst ` set c"
  shows "map fst (fold (exact_substring_match seq) ms c) = map fst c"
proof -
  have "map fst (fold (exact_substring_match seq) ms c') = map fst c"
    if "map fst c' = map fst c" for c'
    using that assms
  proof (induction ms arbitrary: c')
    case Nil
    then show ?case by simp
  next
    case (Cons m ms)
    have k: "fst ` set c' = fst ` set c" using Cons.prems(1) by (metis set_map)
    have "map fst (exact_substring_match seq m c') = map fst c'"
      using Cons.prems by (intro keys_exact_substring_match) (auto simp: k)
    then show ?case using Cons by simp
  qed
  then show ?thesis by simp
qed

lemma keys_fold_exact_substring_seq:
  assumes "set xs \<subseteq> fst ` set c" and "\<And>s. fst ` set (fnd s t) \<subseteq> fst ` set c"
  shows "map fst (fold (exact_substring_seq fnd t) xs c) = map fst c"
proof -
  have "map fst (fold (exact_substring_seq fnd t) xs c') = map fst c"
    if "map fst c' = map fst c" for c'
    using that assms(1)
  proof (induction xs arbitrary: c')
    case Nil
    then show ?case by simp
  next
    case (Cons s xs)
    have k: "fst ` set c' = fst ` set c" using Cons.prems(1) by (metis set_map)
    have "map fst (exact_substring_seq fnd t s c') = map fst c'"
      unfolding exact_substring_seq_def
      using Cons.prems(2) assms(2) [of s]
      by (intro keys_fold_exact_substring_match) (auto simp: k)
    then show ?case using Cons by simp
  qed
  then show ?thesis by simp
qed

lemma keys_exact_substring_loop:
  assumes "\<And>k. has_key t k \<Longrightarrow> k \<in> fst ` set c"
  shows "map fst (exact_substring_loop triefind_find c t) = map fst c"
  unfolding exact_substring_loop_def
  by (rule keys_fold_exact_substring_seq)
     (auto simp: set_by_length_desc matches_triefind_find assms)

lemma fold_exact_substring_match_id:
  assumes "shorter_matches seq ms = {}"
  shows "fold (exact_substring_match seq) ms c = c"
  using assms
proof (induction ms)
  case Nil
  show ?case by simp
next
  case (Cons m ms)
  obtain w i j where m: "m = (w, i, j)" by (cases m)
  have eq: "length w = length seq" and rest: "shorter_matches seq ms = {}"
    using Cons.prems by (auto simp: m shorter_matches_Cons split: if_splits)
  show ?case using eq Cons.IH [OF rest] by (simp add: m)
qed

lemma fold_exact_substring_seq_id:
  assumes "\<And>s. s \<in> set xs \<Longrightarrow> shorter_matches s (fnd s t) = {}"
  shows "fold (exact_substring_seq fnd t) xs c = c"
  using assms
  by (induction xs) (simp_all add: exact_substring_seq_def fold_exact_substring_match_id)

lemma keep_positive_idem: "keep_positive (keep_positive c) = keep_positive c"
  by (simp add: keep_positive_def)

lemma getitem_member:
  assumes "distinct (map fst c)" and "(k, v) \<in> set c"
  shows "getitem c k = v"
  using assms by (simp add: getitem_def)

lemma second_pass_no_matches:
  assumes d: "distinct (map fst c)"
    and s: "s \<in> fst ` set (process_exact_substring triefind_find c (construct_simple_trie c))"
  shows "shorter_matches s (triefind_find s (construct_simple_trie
           (process_exact_substring triefind_find c (construct_simple_trie c)))) = {}"
proof (rule ccontr)
  let ?t = "construct_simple_trie c"
  let ?final = "exact_substring_loop triefind_find c ?t"
  let ?c' = "process_exact_substring triefind_find c ?t"
  assume "\<not> ?thesis"
  then obtain m where m: "m \<in> shorter_matches s (triefind_find s (construct_simple_trie ?c'))"
    by auto
  then have ne: "m \<noteq> []" and sub: "sublist m s" and len: "length m \<noteq> length s"
    and mk: "m \<in> fst ` set ?c'"
    by (simp_all add: shorter_matches_find has_key_simple_trie)
  have keys: "map fst ?final = map fst c"
    by (rule keys_exact_substring_loop) (simp add: has_key_simple_trie)
  then have kset: "fst ` set ?final = fst ` set c" by (metis set_map)
  have sub': "set ?c' \<subseteq> set ?final"
    by (auto simp: process_exact_substring_def keep_positive_def)
  from mk obtain v where v: "(m, v) \<in> set ?final" "0 < v"
    by (auto simp: process_exact_substring_def keep_positive_def)
  have dfinal: "distinct (map fst ?final)" using d by (rule distinct_exact_substring_loop)
  have pos: "0 < getitem ?final m" using getitem_member [OF dfinal v(1)] v(2) by simp
  have m_key: "m \<in> fst ` set c" using v(1) kset by force
  have s_key: "s \<in> fst ` set c" using s sub' kset by force
  have "m \<in> shorter_matches s (triefind_find s ?t)"
    using ne sub len m_key by (simp add: shorter_matches_find has_key_simple_trie)
  then have "getitem ?final m = 0"
    using collapsed_loop [of ?t c] s_key unfolding collapsed_def by blast
  with pos show False by simp
qed

section \<open>Claims about repeating the exact collapse\<close>

text \<open>
  C7. Running the Exact Substring Collapser a second time on its own output, with a
  single-resolution trie rebuilt from that output, returns the output unchanged.
\<close>

theorem exact_collapse_idempotent:
  assumes "distinct (map fst counter)"
  shows "process_exact_substring triefind_find
           (process_exact_substring triefind_find counter (construct_simple_trie counter))
           (construct_simple_trie
              (process_exact_substring triefind_find counter (construct_simple_trie counter)))
         = process_exact_substring triefind_find counter (construct_simple_trie counter)"
proof -
  let ?c' = "process_exact_substring triefind_find counter (construct_simple_trie counter)"
  have "exact_substring_loop triefind_find ?c' (construct_simple_trie ?c') = ?c'"
    unfolding exact_substring_loop_def
    by (rule fold_exact_substring_seq_id)
       (simp add: set_by_length_desc second_pass_no_matches [OF assms])
  then have "process_exact_substring triefind_find ?c' (construct_simple_trie ?c')
               = keep_positive ?c'"
    by (simp add: process_exact_substring_def)
  also have "\<dots> = ?c'" by (simp add: process_exact_substring_def keep_positive_idem)
  finally show ?thesis .
qed

theorem exact_collapse_idempotent_witness:
  "process_exact_substring triefind_find scenario_table (construct_simple_trie scenario_table)
     = [(''AAAAGG'', 5), (''TTTT'', 5)] \<and>
   process_exact_substring triefind_find [(''AAAAGG'', 5), (''TTTT'', 5)]
     (construct_simple_trie [(''AAAAGG'', 5), (''TTTT'', 5)]) = [(''AAAAGG'', 5), (''TTTT'', 5)]"
proof -
  have d: "distinct (map fst scenario_table)" by (simp add: scenario_table_def)
  have r: "process_exact_substring triefind_find scenario_table
             (construct_simple_trie scenario_table) = [(''AAAAGG'', 5), (''TTTT'', 5)]"
    by code_simp
  show ?thesis using exact_collapse_idempotent [OF d] unfolding r by simp
qed

section \<open>The total count\<close>

lemma set_setitem: "set (setitem k v c) \<subseteq> insert (k, v) (set c)"
  by (induction c) (auto split: if_splits)

lemma nonneg_setitem: "nonneg c \<Longrightarrow> 0 \<le> v \<Longrightarrow> nonneg (setitem k v c)"
  using set_setitem [of k v c] unfolding nonneg_def by fastforce

lemma nonneg_getitem: "nonneg c \<Longrightarrow> 0 \<le> getitem c k"
  unfolding nonneg_def getitem_def
  by (auto split: option.splits dest!: map_of_SomeD intro: rev_image_eqI)

lemma total_keep_positive: "nonneg c \<Longrightarrow> total (keep_positive c) = total c"
  unfolding nonneg_def total_def keep_positive_def
  by (induction c) auto

lemma exact_substring_match_conserves:
  assumes "nonneg c"
  shows "nonneg (exact_substring_match seq m c) \<and> total (exact_substring_match seq m c) = total c"
proof -
  obtain w i j where m: "m = (w, i, j)" by (cases m)
  show ?thesis
  proof (cases "length w = length seq")
    case True
    then show ?thesis using assms by (simp add: m)
  next
    case False
    then have "w \<noteq> seq" by auto
    then show ?thesis
      using assms False
      by (simp add: m total_setitem getitem_setitem nonneg_setitem nonneg_getitem)
  qed
qed

lemma process_exact_substring_conserves:
  assumes "nonneg c"
  shows "total (process_exact_substring fnd c t) = total c"
proof -
  let ?P = "\<lambda>c'. nonneg c' \<and> total c' = total c"
  have inner: "?P (exact_substring_seq fnd t s c')" if "?P c'" for s c'
    unfolding exact_substring_seq_def
    by (rule fold_invariant [where P = ?P]) (use that exact_substring_match_conserves in auto)
  have "?P (exact_substring_loop fnd c t)"
    unfolding exact_substring_loop_def
    by (rule fold_invariant [where P = ?P]) (use assms inner in auto)
  then show ?thesis by (simp add: process_exact_substring_def total_keep_positive)
qed

lemma set_unique_everseen_from: "set (unique_everseen_from key seen xs) \<subseteq> set xs"
  by (induction xs arbitrary: seen) auto

lemma set_unique_everseen: "set (unique_everseen key xs) \<subseteq> set xs"
  by (simp add: unique_everseen_def set_unique_everseen_from)

lemma similar_match_conserves:
  assumes "nonneg c" and "fst (snd m) \<noteq> SubsequenceOf seq"
  shows "nonneg (similar_match seq m c) \<and> total (similar_match seq m c) = total c"
proof -
  obtain k v d where m: "m = (k, v, d)" by (cases m)
  show ?thesis
  proof (cases "d = 0 \<or> k = seq")
    case True
    then show ?thesis using assms by (auto simp: m)
  next
    case False
    show ?thesis
    proof (cases v)
      case (Canonical i)
      then show ?thesis
        using assms False
        by (simp add: m total_setitem getitem_setitem nonneg_setitem nonneg_getitem)
    next
      case (SubsequenceOf p)
      then have "p \<noteq> seq" using assms(2) by (simp add: m)
      then show ?thesis
        using assms False SubsequenceOf
        by (simp add: m total_setitem getitem_setitem nonneg_setitem nonneg_getitem)
    qed
  qed
qed

lemma similar_seq_conserves:
  assumes "nonneg c" and "\<And>k d. (k, SubsequenceOf s, d) \<notin> set (approx t s n)"
  shows "nonneg (similar_seq approx t n s c) \<and> total (similar_seq approx t n s c) = total c"
proof (cases "getitem c s = 0")
  case True
  then show ?thesis using assms(1) by (simp add: similar_seq_def)
next
  case False
  let ?P = "\<lambda>c'. nonneg c' \<and> total c' = total c"
  have "?P (fold (similar_match s) (unique_everseen match_key (approx t s n)) c)"
  proof (rule fold_invariant [where P = ?P])
    fix m c'
    assume m: "m \<in> set (unique_everseen match_key (approx t s n))" and P: "?P c'"
    have mem: "m \<in> set (approx t s n)"
      using m set_unique_everseen [of match_key "approx t s n"] by (rule subsetD [rotated])
    obtain k v d where mk: "m = (k, v, d)" by (cases m)
    have "v \<noteq> SubsequenceOf s" using mem assms(2) [of k d] unfolding mk by metis
    then have ne: "fst (snd m) \<noteq> SubsequenceOf s" by (simp add: mk)
    have nn: "nonneg c'" and tt: "total c' = total c" using P by simp_all
    show "?P (similar_match s m c')"
      using similar_match_conserves [OF nn ne] tt by simp
  next
    show "?P c" using assms(1) by simp
  qed
  then show ?thesis using False by (simp add: similar_seq_def)
qed

lemma process_similar_conserves:
  assumes "nonneg c"
    and "\<And>s k d. (k, SubsequenceOf s, d) \<notin> set (approx t s n)"
  shows "total (process_similar approx c t n) = total c"
proof -
  let ?P = "\<lambda>c'. nonneg c' \<and> total c' = total c"
  have "?P (similar_loop approx c t n)"
    unfolding similar_loop_def
  proof (rule fold_invariant [where P = ?P])
    fix s c'
    assume P: "?P c'"
    have nn: "nonneg c'" and tt: "total c' = total c" using P by simp_all
    show "?P (similar_seq approx t n s c')"
      using similar_seq_conserves [where approx = approx and t = t and n = n and s = s
              and c = c', OF nn assms(2)] tt
      by simp
  next
    show "?P c" using assms(1) by simp
  qed
  then show ?thesis by (simp add: process_similar_def total_keep_positive)
qed

lemma similar_matrix_match_conserves:
  "total (fst (similar_matrix_match seq m st)) + total (snd (similar_matrix_match seq m st))
     = total (fst st) + total (snd st)"
proof -
  obtain k v d where m: "m = (k, v, d)" by (cases m)
  obtain b s where st: "st = (b, s)" by (cases st)
  show ?thesis by (cases v) (simp_all add: m st total_setitem)
qed

lemma process_similar_matrix_conserves:
  "total (fst (process_similar_matrix approx bins seqs t n))
     + total (snd (process_similar_matrix approx bins seqs t n)) = total bins + total seqs"
proof -
  let ?P = "\<lambda>st. total (fst st) + total (snd st) = total bins + total seqs"
  have inner: "?P (similar_matrix_seq approx t n s st)" if "?P st" for s st
    unfolding similar_matrix_seq_def
    by (rule fold_invariant [where P = ?P])
       (use that in \<open>simp_all add: similar_matrix_match_conserves\<close>)
  show ?thesis
    unfolding process_similar_matrix_def
    by (rule fold_invariant [where P = ?P]) (use inner in auto)
qed

section \<open>Claims about conservation\<close>

text \<open>
  C1. The Exact Substring Collapser conserves the total on every table without negative
  counts (\<open>process_exact_substring_conserves\<close>) and the Bin Classifier conserves the total
  of bins and samples together (\<open>process_similar_matrix_conserves\<close>). The Approximate
  Clusterer conserves it when no match of a query is a window registered for the query
  itself (\<open>process_similar_conserves\<close>), and loses mass otherwise: on the table
  \<open>AAAAG: 2, TTTT: 5\<close> with its multi-resolution trie and one mismatch allowed, the query
  \<open>AAAAG\<close> matches its own window \<open>AAAA\<close>, whose entry points back at \<open>AAAAG\<close>; the string
  branch adds the count of \<open>AAAAG\<close> to itself and then zeroes it. The total drops from 7
  to 5.
\<close>

theorem process_similar_loses_mass:
  "construct_complex_trie own_window None
     = [(''AAAA'', SubsequenceOf ''AAAAG''), (''AAAG'', SubsequenceOf ''AAAAG''),
        (''AAAAG'', Canonical 2), (''TTTT'', Canonical 5)] \<and>
   unique_everseen match_key (get_approximate (construct_complex_trie own_window None) ''AAAAG'' 1)
     = [(''AAAA'', SubsequenceOf ''AAAAG'', 1), (''AAAG'', SubsequenceOf ''AAAAG'', 1),
        (''AAAAG'', Canonical 2, 0)] \<and>
   similar_match ''AAAAG'' (''AAAA'', SubsequenceOf ''AAAAG'', 1) own_window
     = [(''AAAAG'', 0), (''TTTT'', 5)] \<and>
   similar_match ''AAAAG'' (''AAAG'', SubsequenceOf ''AAAAG'', 1) own_window
     = [(''AAAAG'', 0), (''TTTT'', 5)] \<and>
   process_similar get_approximate own_window (construct_complex_trie own_window None) 1
     = [(''TTTT'', 5)] \<and>
   total own_window = 7 \<and>
   total (process_similar get_approximate own_window (construct_complex_trie own_window None) 1)
     = 5"
  by code_simp

end
